theory Spec2Isabelle
  imports Main
begin

section \<open>Values, contexts and outcomes\<close>

text \<open>
  The module \<^verbatim>\<open>Instrument.js\<close> wraps GraphQL resolver functions. Its behaviour
  depends on the shape of JavaScript values only through a handful of tests
  (\<^verbatim>\<open>=== null\<close>, \<^verbatim>\<open>typeof\<close>, \<^verbatim>\<open>Array.isArray\<close>, a callable \<^verbatim>\<open>then\<close>), so a value is
  one of the shapes below. Objects are property lists (inherited properties
  listed with the own ones), promises and functions are references.
\<close>

type_synonym pid = nat
type_synonym addr = nat
type_synonym cid = nat
type_synonym rid = nat
type_synonym fid = nat
type_synonym aid = nat

datatype jsval =
    VUndefined
  | VNull
  | VBool bool
  | VNum int
  | VStr string
  | VError string
  | VPromise pid
  | VArray "jsval list"
  | VObject "(string \<times> jsval) list"
  | VFun fid

text \<open>
  The execution-context argument \<^verbatim>\<open>ctx\<close>. Only its \<^verbatim>\<open>datadogContext\<close> property is
  read: it is missing (or falsy), a reference to a request context made by
  \<^verbatim>\<open>preRequest\<close>, or some other truthy value that is not such a context (for
  instance \<^verbatim>\<open>{}\<close>), which has neither \<^verbatim>\<open>startHrTime\<close> nor \<^verbatim>\<open>resolverCalls\<close>.
\<close>

datatype ddprop = DdMissing | DdContext cid | DdOther

datatype ctxval = CtxUndefined | CtxNull | CtxObj ddprop

datatype outcome = Returns jsval | Throws jsval

datatype pstate = Pending | Fulfilled jsval | Rejected jsval

text \<open>
  What a function of the application does when it is called as the \<^verbatim>\<open>then\<close> or
  the \<^verbatim>\<open>catch\<close> of its object with callbacks: it calls the first callback, with
  no argument, a number of times and then returns a value or throws, as
  \<^verbatim>\<open>then(cb) { cb(); cb(); return x; }\<close> does; or it passes its arguments on to
  the same property of a native promise and returns what that returns, as
  \<^verbatim>\<open>then: (f, r) => p.then(f, r)\<close> does.
\<close>

datatype callback_use = Calls nat outcome | Forwards pid

record field_info =
  typeName :: string
  fieldName :: string

record resolve_info =
  info_fieldName :: string

record resolverReport =
  startOffset :: int
  fieldInfo :: field_info
  resolverInfo :: resolve_info
  resolverContext :: ctxval
  endOffset :: "int option"
  error :: bool
  resultNull :: bool
  resultUndefined :: bool

record request_context =
  req :: rid
  startWallTime :: int
  startHrTime :: int
  resolverCalls :: "addr list"
  durationHrTime :: "int option"
  endWallTime :: "int option"
  agent :: "aid option"

text \<open>
  The two closures the wrapper hands to promises: \<^verbatim>\<open>finishRun\<close>, and the arrow
  function given to \<^verbatim>\<open>catch\<close>. Each captures its report and its request context.
\<close>

datatype handler = FinishRun addr cid | ErrorFinishRun addr cid

text \<open>
  What \<^verbatim>\<open>Promise.all\<close> makes of an element: a promise that follows a native
  promise, or one whose fate is fixed from the start.
\<close>

datatype source = Follows pid | Always pstate

text \<open>
  A promise the wrapper builds: the one returned by the resolver, the one made
  by \<^verbatim>\<open>Promise.all\<close>, and those derived by \<^verbatim>\<open>then\<close> and \<^verbatim>\<open>catch\<close>.
\<close>

datatype deferred =
    OfPromise pid
  | OfAll "source list"
  | ThenOf deferred handler
  | CatchOf deferred handler

datatype resolver = UserFn fid | DefaultResolveFn | Decorated resolver field_info

datatype signal =
    TraceStarted ddprop resolve_info ctxval
  | DebugFn aid string

datatype wfield = WError | WResultNull | WResultUndefined | WEndOffset

text \<open>
  The state the module reads and writes. Objects that are shared and mutated
  live in stores: \<open>heap\<close> holds the report objects, \<open>contexts\<close> the request
  contexts, \<open>slots\<close> the \<^verbatim>\<open>_datadogContext\<close> attribute of each request, \<open>pstates\<close>
  the state of every promise. \<open>chains\<close> are the promise chains whose callbacks
  have not run yet, \<open>immediates\<close> the requests for which \<^verbatim>\<open>setImmediate\<close> has
  queued \<^verbatim>\<open>reportRequestEnd\<close>, \<open>signals\<close> the calls made to the reporting
  module. \<open>journal\<close> lists every assignment made to a property of a report
  after its creation, and \<open>invocations\<close> every call of an undecorated
  resolver, both in order.
\<close>

record world =
  hrclock :: int
  wallclock :: int
  pstates :: "pid \<Rightarrow> pstate"
  heap :: "addr \<Rightarrow> resolverReport"
  next_addr :: addr
  contexts :: "cid \<Rightarrow> request_context"
  next_cid :: cid
  slots :: "rid \<Rightarrow> cid option"
  chains :: "deferred list"
  immediates :: "rid list"
  signals :: "signal list"
  journal :: "(addr \<times> wfield) list"
  invocations :: "resolver list"

type_synonym resolver_fn =
  "jsval \<Rightarrow> jsval \<Rightarrow> ctxval \<Rightarrow> resolve_info \<Rightarrow> world \<Rightarrow> outcome \<times> world"

text \<open>
  Functions of the application are named by references; what they compute is
  given from outside: \<open>user_fn\<close> for a resolver (it may read the state),
  \<open>call_property\<close> for a function-valued property called with \<^verbatim>\<open>(args, context)\<close> on its
  object, \<open>callback_property\<close> for one called with callbacks on its object,
  \<open>builtin\<close> for the properties the engine supplies on arrays, functions,
  promises and errors.
\<close>

record host =
  user_fn :: "fid \<Rightarrow> jsval \<Rightarrow> jsval \<Rightarrow> ctxval \<Rightarrow> resolve_info \<Rightarrow> world \<Rightarrow> outcome"
  call_property :: "fid \<Rightarrow> jsval \<Rightarrow> jsval \<Rightarrow> ctxval \<Rightarrow> outcome"
  callback_property :: "fid \<Rightarrow> jsval \<Rightarrow> callback_use"
  builtin :: "jsval \<Rightarrow> string \<Rightarrow> jsval"

definition typeError :: jsval where
  "typeError = VError ''TypeError''"

text \<open>\<^verbatim>\<open>process.hrtime(t)\<close>: the time elapsed since \<open>t\<close>, in nanoseconds.\<close>

definition process_hrtime :: "world \<Rightarrow> int \<Rightarrow> int" where
  "process_hrtime w t = hrclock w - t"

section \<open>Request wrapping\<close>

definition preRequest :: "rid \<Rightarrow> world \<Rightarrow> world" where
  "preRequest r w =
     (let c = next_cid w;
          context = \<lparr>req = r, startWallTime = wallclock w, startHrTime = hrclock w,
                     resolverCalls = [], durationHrTime = None, endWallTime = None,
                     agent = None\<rparr>
      in w\<lparr>contexts := (contexts w)(c := context),
            next_cid := Suc c,
            slots := (slots w)(r := Some c)\<rparr>)"

definition postRequest :: "rid \<Rightarrow> world \<Rightarrow> world" where
  "postRequest r w =
     (case slots w r of
        None \<Rightarrow> w
      | Some c \<Rightarrow>
          w\<lparr>contexts := (contexts w)(c := (contexts w c)
                 \<lparr>durationHrTime := Some (process_hrtime w (startHrTime (contexts w c))),
                  endWallTime := Some (wallclock w)\<rparr>),
            immediates := immediates w @ [r]\<rparr>)"

definition newContext :: "rid \<Rightarrow> aid \<Rightarrow> world \<Rightarrow> cid \<times> world" where
  "newContext r ag w =
     (let w1 = (case slots w r of
                  Some c \<Rightarrow> w
                | None \<Rightarrow> preRequest r (w\<lparr>signals := signals w @
                    [DebugFn ag ''Optics context not found. Make sure Optics middleware is installed.'']\<rparr>));
          c = (case slots w1 r of Some c \<Rightarrow> c | None \<Rightarrow> next_cid w1)
      in (c, w1\<lparr>contexts := (contexts w1)(c := (contexts w1 c)\<lparr>agent := Some ag\<rparr>)\<rparr>))"

section \<open>Promises\<close>

text \<open>
  What the module needs of promises. A call of \<^verbatim>\<open>then\<close> or \<^verbatim>\<open>catch\<close> on a
  native promise derives a new promise and never runs the callback at once; the
  callback runs in a later microtask, once, after the promise it was attached to
  has settled: the one given to \<^verbatim>\<open>then\<close> if it fulfilled, the one given to
  \<^verbatim>\<open>catch\<close> if it rejected. A rejection passes through a \<^verbatim>\<open>then\<close> that has no
  rejection callback, a fulfilment through a \<^verbatim>\<open>catch\<close>. \<^verbatim>\<open>Promise.all\<close> rejects as
  soon as one element has rejected and fulfils when all have fulfilled.

  An object that is not a native promise but has a callable \<^verbatim>\<open>then\<close> is a
  foreign thenable. Line 167 calls that \<^verbatim>\<open>then\<close>, whatever it is, with
  \<^verbatim>\<open>finishRun\<close>, and calls \<^verbatim>\<open>catch\<close> on whatever it returns.
\<close>

fun truthy :: "jsval \<Rightarrow> bool" where
  "truthy VUndefined = False"
| "truthy VNull = False"
| "truthy (VBool b) = b"
| "truthy (VNum n) = (n \<noteq> 0)"
| "truthy (VStr s) = (s \<noteq> [])"
| "truthy _ = True"

text \<open>\<^verbatim>\<open>typeof v.then === 'function'\<close>, for a value other than null and undefined.\<close>

fun callable_then :: "jsval \<Rightarrow> bool" where
  "callable_then (VPromise q) = True"
| "callable_then (VObject ps) =
     (case map_of ps ''then'' of Some (VFun f) \<Rightarrow> True | _ \<Rightarrow> False)"
| "callable_then _ = False"

datatype methval = Derived deferred | Plain jsval

fun receiver :: "jsval \<Rightarrow> methval" where
  "receiver (VPromise q) = Derived (OfPromise q)"
| "receiver v = Plain v"

text \<open>
  What the function-valued property \<open>n\<close> of an object other than a native
  promise does with callbacks, if the object has such a property.
\<close>

definition callback_of :: "host \<Rightarrow> jsval \<Rightarrow> string \<Rightarrow> callback_use option" where
  "callback_of h v n =
     (case v of
        VObject ps \<Rightarrow>
          (case map_of ps n of
             Some (VFun f) \<Rightarrow> Some (callback_property h f v)
           | _ \<Rightarrow> None)
      | _ \<Rightarrow> None)"

text \<open>
  \<^verbatim>\<open>Promise.all\<close> resolves a fresh promise with each element. For a foreign
  thenable it calls the element's \<^verbatim>\<open>then\<close> with the two functions that settle that
  promise, of which only the first call counts: the promise is fulfilled if
  \<^verbatim>\<open>then\<close> calls back, rejected if it throws before it has called back, follows
  the native promise \<^verbatim>\<open>then\<close> forwards to, and stays pending otherwise.
\<close>

definition element :: "host \<Rightarrow> jsval \<Rightarrow> source" where
  "element h v =
     (case v of
        VPromise q \<Rightarrow> Follows q
      | _ \<Rightarrow>
          (case callback_of h v ''then'' of
             None \<Rightarrow> Always (Fulfilled v)
           | Some (Forwards q) \<Rightarrow> Follows q
           | Some (Calls n out) \<Rightarrow>
               if n > 0 then Always (Fulfilled VUndefined)
               else (case out of
                       Throws e \<Rightarrow> Always (Rejected e)
                     | Returns x \<Rightarrow> Always Pending)))"

definition promise_all :: "host \<Rightarrow> jsval list \<Rightarrow> methval" where
  "promise_all h vs = Derived (OfAll (map (element h) vs))"

definition set_error :: "addr \<Rightarrow> world \<Rightarrow> world" where
  "set_error r w =
     w\<lparr>heap := (heap w)(r := (heap w r)\<lparr>error := True\<rparr>),
       journal := journal w @ [(r, WError)]\<rparr>"

definition set_resultNull :: "addr \<Rightarrow> world \<Rightarrow> world" where
  "set_resultNull r w =
     w\<lparr>heap := (heap w)(r := (heap w r)\<lparr>resultNull := True\<rparr>),
       journal := journal w @ [(r, WResultNull)]\<rparr>"

definition set_resultUndefined :: "addr \<Rightarrow> world \<Rightarrow> world" where
  "set_resultUndefined r w =
     w\<lparr>heap := (heap w)(r := (heap w r)\<lparr>resultUndefined := True\<rparr>),
       journal := journal w @ [(r, WResultUndefined)]\<rparr>"

definition finishRun :: "addr \<Rightarrow> cid \<Rightarrow> world \<Rightarrow> world" where
  "finishRun r c w =
     w\<lparr>heap := (heap w)(r := (heap w r)
            \<lparr>endOffset := Some (process_hrtime w (startHrTime (contexts w c)))\<rparr>),
       journal := journal w @ [(r, WEndOffset)]\<rparr>"

fun run_handler :: "handler \<Rightarrow> world \<Rightarrow> world" where
  "run_handler (FinishRun r c) w = finishRun r c w"
| "run_handler (ErrorFinishRun r c) w = finishRun r c (set_error r w)"

text \<open>
  A call of \<^verbatim>\<open>then\<close> or \<^verbatim>\<open>catch\<close> returns a value or throws, and may change the
  state on the way.
\<close>

datatype attempt = Value methval world | Thrown jsval world

text \<open>
  \<^verbatim>\<open>x.then(k)\<close>. A native promise derives a promise. A foreign thenable does
  what its own \<^verbatim>\<open>then\<close> does: the callback runs at once as many times as \<^verbatim>\<open>then\<close>
  calls it, before \<^verbatim>\<open>then\<close> returns or throws; or it is handed to the native
  promise \<^verbatim>\<open>then\<close> forwards to.
\<close>

definition js_then :: "host \<Rightarrow> methval \<Rightarrow> handler \<Rightarrow> world \<Rightarrow> attempt" where
  "js_then h m k w =
     (case m of
        Derived d \<Rightarrow> Value (Derived (ThenOf d k)) w
      | Plain v \<Rightarrow>
          (case callback_of h v ''then'' of
             None \<Rightarrow> Thrown typeError w
           | Some (Calls n out) \<Rightarrow>
               (case out of
                  Returns x \<Rightarrow> Value (receiver x) ((run_handler k ^^ n) w)
                | Throws e \<Rightarrow> Thrown e ((run_handler k ^^ n) w))
           | Some (Forwards q) \<Rightarrow> Value (Derived (ThenOf (OfPromise q) k)) w))"

text \<open>
  \<^verbatim>\<open>x.catch(k)\<close>: on a native promise the chain is now complete and waits in
  \<open>chains\<close>; on an object with a callable \<^verbatim>\<open>catch\<close> that function runs; on any
  other value, \<^verbatim>\<open>undefined\<close> among them, the call raises a TypeError.
\<close>

definition js_catch :: "host \<Rightarrow> methval \<Rightarrow> handler \<Rightarrow> world \<Rightarrow> attempt" where
  "js_catch h m k w =
     (case m of
        Derived d \<Rightarrow> Value (Derived (CatchOf d k)) (w\<lparr>chains := chains w @ [CatchOf d k]\<rparr>)
      | Plain v \<Rightarrow>
          (case callback_of h v ''catch'' of
             None \<Rightarrow> Thrown typeError w
           | Some (Calls n out) \<Rightarrow>
               (case out of
                  Returns x \<Rightarrow> Value (receiver x) ((run_handler k ^^ n) w)
                | Throws e \<Rightarrow> Thrown e ((run_handler k ^^ n) w))
           | Some (Forwards q) \<Rightarrow>
               Value (Derived (CatchOf (OfPromise q) k))
                 (w\<lparr>chains := chains w @ [CatchOf (OfPromise q) k]\<rparr>)))"

definition source_state :: "world \<Rightarrow> source \<Rightarrow> pstate" where
  "source_state w s = (case s of Follows q \<Rightarrow> pstates w q | Always st \<Rightarrow> st)"

fun is_rejected :: "pstate \<Rightarrow> bool" where
  "is_rejected (Rejected e) = True"
| "is_rejected _ = False"

fun is_fulfilled :: "pstate \<Rightarrow> bool" where
  "is_fulfilled (Fulfilled v) = True"
| "is_fulfilled _ = False"

fun fulfilled_value :: "pstate \<Rightarrow> jsval" where
  "fulfilled_value (Fulfilled v) = v"
| "fulfilled_value _ = VUndefined"

definition all_state :: "world \<Rightarrow> source list \<Rightarrow> pstate" where
  "all_state w ss =
     (let sts = map (source_state w) ss in
      case List.find is_rejected sts of
        Some st \<Rightarrow> st
      | None \<Rightarrow> if list_all is_fulfilled sts then Fulfilled (VArray (map fulfilled_value sts))
                else Pending)"

text \<open>The state of a promise of the wrapper, read off the promises it derives from.\<close>

fun chain_state :: "world \<Rightarrow> deferred \<Rightarrow> pstate" where
  "chain_state w (OfPromise q) = pstates w q"
| "chain_state w (OfAll ss) = all_state w ss"
| "chain_state w (ThenOf d h) =
     (case chain_state w d of
        Fulfilled v \<Rightarrow> Fulfilled VUndefined
      | st \<Rightarrow> st)"
| "chain_state w (CatchOf d h) =
     (case chain_state w d of
        Rejected e \<Rightarrow> Fulfilled VUndefined
      | st \<Rightarrow> st)"

text \<open>Running the callbacks of a chain whose source has settled, innermost first.\<close>

fun run_chain :: "deferred \<Rightarrow> world \<Rightarrow> pstate \<times> world" where
  "run_chain (OfPromise q) w = (pstates w q, w)"
| "run_chain (OfAll ss) w = (all_state w ss, w)"
| "run_chain (ThenOf d h) w =
     (case run_chain d w of
        (Fulfilled v, w') \<Rightarrow> (Fulfilled VUndefined, run_handler h w')
      | (st, w') \<Rightarrow> (st, w'))"
| "run_chain (CatchOf d h) w =
     (case run_chain d w of
        (Rejected e, w') \<Rightarrow> (Fulfilled VUndefined, run_handler h w')
      | (st, w') \<Rightarrow> (st, w'))"

text \<open>
  A microtask checkpoint: every waiting chain whose source has settled runs and
  is dropped; the others keep waiting.
\<close>

fun drain :: "deferred list \<Rightarrow> world \<Rightarrow> deferred list \<times> world" where
  "drain [] w = ([], w)"
| "drain (d # ds) w =
     (if chain_state w d = Pending
      then (case drain ds w of (keep, w') \<Rightarrow> (d # keep, w'))
      else drain ds (snd (run_chain d w)))"

definition microtasks :: "world \<Rightarrow> world" where
  "microtasks w = (case drain (chains w) w of (keep, w') \<Rightarrow> w'\<lparr>chains := keep\<rparr>)"

section \<open>Resolver wrapping\<close>

definition datadogContext_of :: "ctxval \<Rightarrow> ddprop" where
  "datadogContext_of ctx =
     (case ctx of CtxUndefined \<Rightarrow> DdMissing | CtxNull \<Rightarrow> DdMissing | CtxObj d \<Rightarrow> d)"

text \<open>
  Lines 118 to 126: the report object is created and pushed on
  \<^verbatim>\<open>datadogContext.resolverCalls\<close>.
\<close>

definition startReport ::
  "field_info \<Rightarrow> resolve_info \<Rightarrow> ctxval \<Rightarrow> cid \<Rightarrow> world \<Rightarrow> world" where
  "startReport fi ri ctx c w =
     (let resolverReport =
            \<lparr>startOffset = process_hrtime w (startHrTime (contexts w c)),
             fieldInfo = fi, resolverInfo = ri, resolverContext = ctx,
             endOffset = None, error = False, resultNull = False,
             resultUndefined = False\<rparr>;
          r = next_addr w
      in w\<lparr>heap := (heap w)(r := resolverReport),
            next_addr := Suc r,
            contexts := (contexts w)(c := (contexts w c)
               \<lparr>resolverCalls := resolverCalls (contexts w c) @ [r]\<rparr>)\<rparr>)"

text \<open>
  The body of the second \<^verbatim>\<open>try\<close> (lines 158 to 200) either returns early, falls
  through to the default return after \<^verbatim>\<open>finishRun()\<close>, or raises.
\<close>

datatype flow = EarlyReturn world | DefaultReturn world | Raised jsval world

text \<open>
  The expression \<^verbatim>\<open>x.then(finishRun).catch(() => { ... })\<close> of lines 167 and
  187, followed by the early return.
\<close>

definition then_catch :: "host \<Rightarrow> methval \<Rightarrow> addr \<Rightarrow> cid \<Rightarrow> world \<Rightarrow> flow" where
  "then_catch h m r c w =
     (case js_then h m (FinishRun r c) w of
        Thrown e w' \<Rightarrow> Raised e w'
      | Value m' w' \<Rightarrow>
          (case js_catch h m' (ErrorFinishRun r c) w' of
             Thrown e w'' \<Rightarrow> Raised e w''
           | Value x w'' \<Rightarrow> EarlyReturn w''))"

definition classify :: "host \<Rightarrow> addr \<Rightarrow> cid \<Rightarrow> jsval \<Rightarrow> world \<Rightarrow> flow" where
  "classify h r c result w =
     (if result = VNull then DefaultReturn (set_resultNull r w)
      else if result = VUndefined then DefaultReturn (set_resultUndefined r w)
      else if callable_then result then then_catch h (receiver result) r c w
      else
        (case result of
           VArray vs \<Rightarrow>
             (let promises = filter (\<lambda>v. truthy v \<and> callable_then v) vs in
              if length promises > 0 then then_catch h (promise_all h promises) r c w
              else DefaultReturn w)
         | _ \<Rightarrow> DefaultReturn w))"

definition processResult :: "host \<Rightarrow> addr \<Rightarrow> cid \<Rightarrow> jsval \<Rightarrow> world \<Rightarrow> outcome \<times> world" where
  "processResult h r c result w =
     (case classify h r c result w of
        EarlyReturn w' \<Rightarrow> (Returns result, w')
      | DefaultReturn w' \<Rightarrow> (Returns result, finishRun r c w')
      | Raised e w' \<Rightarrow> (Throws e, w'))"

definition decoratedResolver :: "host \<Rightarrow> resolver_fn \<Rightarrow> field_info \<Rightarrow> resolver_fn" where
  "decoratedResolver h fn fi p a ctx ri w =
     (case datadogContext_of ctx of
        DdMissing \<Rightarrow> fn p a ctx ri w
      | DdOther \<Rightarrow> (Throws typeError, w)
      | DdContext c \<Rightarrow>
          (let r = next_addr w;
               w1 = startReport fi ri ctx c w
           in case fn p a ctx ri w1 of
                (Throws e, w2) \<Rightarrow> (Throws e, finishRun r c (set_error r w2))
              | (Returns result, w2) \<Rightarrow>
                  (case processResult h r c result w2 of
                     (Throws e, w3) \<Rightarrow> (Returns result, w3)
                   | (Returns v, w3) \<Rightarrow> (Returns v, w3))))"

definition decorateField :: "host \<Rightarrow> resolver_fn \<Rightarrow> field_info \<Rightarrow> resolver_fn" where
  "decorateField h fn fi = decoratedResolver h fn fi"

section \<open>The default resolver\<close>

fun typeof :: "jsval \<Rightarrow> string" where
  "typeof VUndefined = ''undefined''"
| "typeof VNull = ''object''"
| "typeof (VBool b) = ''boolean''"
| "typeof (VNum n) = ''number''"
| "typeof (VStr s) = ''string''"
| "typeof (VFun f) = ''function''"
| "typeof _ = ''object''"

text \<open>\<^verbatim>\<open>source[name]\<close> for a source whose \<^verbatim>\<open>typeof\<close> is object or function.\<close>

fun get_property :: "host \<Rightarrow> jsval \<Rightarrow> string \<Rightarrow> jsval + jsval" where
  "get_property h VNull n = Inl typeError"
| "get_property h VUndefined n = Inl typeError"
| "get_property h (VObject ps) n =
     Inr (case map_of ps n of Some v \<Rightarrow> v | None \<Rightarrow> VUndefined)"
| "get_property h v n = Inr (builtin h v n)"

definition defaultResolveFn ::
  "host \<Rightarrow> jsval \<Rightarrow> jsval \<Rightarrow> ctxval \<Rightarrow> resolve_info \<Rightarrow> outcome" where
  "defaultResolveFn h source args context info =
     (if typeof source = ''object'' \<or> typeof source = ''function'' then
        (case get_property h source (info_fieldName info) of
           Inl e \<Rightarrow> Throws e
         | Inr property \<Rightarrow>
             (case property of
                VFun f \<Rightarrow> call_property h f source args context
              | _ \<Rightarrow> Returns property))
      else Returns VUndefined)"

section \<open>Schema wrapping\<close>

text \<open>
  A resolver installed in a schema is a function of the application, the
  default resolver, or a resolver decorated by \<^verbatim>\<open>decorateField\<close>. Calling an
  undecorated one is noted in \<open>invocations\<close>.
\<close>

primrec apply_resolver :: "host \<Rightarrow> resolver \<Rightarrow> resolver_fn" where
  "apply_resolver h (UserFn f) =
     (\<lambda>p a ctx ri w. (user_fn h f p a ctx ri w,
                      w\<lparr>invocations := invocations w @ [UserFn f]\<rparr>))"
| "apply_resolver h DefaultResolveFn =
     (\<lambda>p a ctx ri w. (defaultResolveFn h p a ctx ri,
                      w\<lparr>invocations := invocations w @ [DefaultResolveFn]\<rparr>))"
| "apply_resolver h (Decorated fn fi) = decorateField h (apply_resolver h fn) fi"



datatype root_fn = OpticsRootResolve


text \<open>
  Modelled from the spec: \<^verbatim>\<open>reportRequestStart\<close> of \<^verbatim>\<open>Report.js\<close>, which is not
  among the sources. The reporting collaborator receives the signal
  \<^verbatim>\<open>traceStarted(RequestContext, rootInvocationInfo, executionContext)\<close>.
\<close>

definition reportRequestStart :: "ddprop \<Rightarrow> resolve_info \<Rightarrow> ctxval \<Rightarrow> world \<Rightarrow> world" where
  "reportRequestStart d info ctx w = w\<lparr>signals := signals w @ [TraceStarted d info ctx]\<rparr>"

text \<open>The function given to \<^verbatim>\<open>addSchemaLevelResolveFunction\<close> (lines 263 to 269).\<close>

definition schemaLevelResolve :: resolver_fn where
  "schemaLevelResolve root args ctx info w =
     (case ctx of
        CtxUndefined \<Rightarrow> (Throws typeError, w)
      | CtxNull \<Rightarrow> (Throws typeError, w)
      | CtxObj datadogContext \<Rightarrow>
          (if datadogContext \<noteq> DdMissing
           then (Returns root, reportRequestStart datadogContext info ctx w)
           else (Returns root, w)))"

primrec apply_root_fn :: "root_fn \<Rightarrow> resolver_fn" where
  "apply_root_fn OpticsRootResolve = schemaLevelResolve"



section \<open>Turns of the event loop\<close>

text \<open>
  What happens around and after a call of a decorated resolver, one turn of the
  event loop at a time: the application settles a pending promise, time passes,
  the engine calls a resolver of the schema (and drops its outcome here), a
  request starts or ends. Each turn ends with a microtask checkpoint. Settling a
  promise that has settled already changes nothing.
\<close>

datatype event =
    Resolve pid jsval
  | Reject pid jsval
  | Tick nat
  | Call resolver jsval jsval ctxval resolve_info
  | RequestStart rid
  | RequestEnd rid

definition settle :: "pid \<Rightarrow> pstate \<Rightarrow> world \<Rightarrow> world" where
  "settle q st w =
     (if pstates w q = Pending then w\<lparr>pstates := (pstates w)(q := st)\<rparr> else w)"

fun occur :: "host \<Rightarrow> event \<Rightarrow> world \<Rightarrow> world" where
  "occur h (Resolve q v) w = settle q (Fulfilled v) w"
| "occur h (Reject q e) w = settle q (Rejected e) w"
| "occur h (Tick n) w = w\<lparr>hrclock := hrclock w + int n, wallclock := wallclock w + int n\<rparr>"
| "occur h (Call fn p a ctx ri) w = snd (apply_resolver h fn p a ctx ri w)"
| "occur h (RequestStart r) w = preRequest r w"
| "occur h (RequestEnd r) w = postRequest r w"

definition step :: "host \<Rightarrow> event \<Rightarrow> world \<Rightarrow> world" where
  "step h e w = microtasks (occur h e w)"

fun run :: "host \<Rightarrow> event list \<Rightarrow> world \<Rightarrow> world" where
  "run h [] w = w"
| "run h (e # es) w = run h es (step h e w)"

section \<open>Calls of the application, and a sample application\<close>

text \<open>
  A call of the wrapped function is a step of the application: it may take time
  and call undecorated resolvers, and leaves the reports, the request contexts,
  the promise states and the waiting chains as they are.
\<close>

definition app_step :: "world \<Rightarrow> world \<Rightarrow> bool" where
  "app_step w1 w2 \<longleftrightarrow>
     w2 = w1\<lparr>hrclock := hrclock w2, wallclock := wallclock w2,
            invocations := invocations w2\<rparr>"

definition blank_report :: resolverReport where
  "blank_report =
     \<lparr>startOffset = 0, fieldInfo = \<lparr>typeName = [], fieldName = []\<rparr>,
      resolverInfo = \<lparr>info_fieldName = []\<rparr>, resolverContext = CtxUndefined,
      endOffset = None, error = False, resultNull = False, resultUndefined = False\<rparr>"

definition blank_context :: request_context where
  "blank_context =
     \<lparr>req = 0, startWallTime = 0, startHrTime = 0, resolverCalls = [],
      durationHrTime = None, endWallTime = None, agent = None\<rparr>"

text \<open>The state of a fresh process, and that state after \<^verbatim>\<open>preRequest\<close> on request 0.\<close>

definition world0 :: world where
  "world0 =
     \<lparr>hrclock = 0, wallclock = 0, pstates = (\<lambda>q. Pending), heap = (\<lambda>r. blank_report),
      next_addr = 0, contexts = (\<lambda>c. blank_context), next_cid = 0, slots = (\<lambda>r. None),
      chains = [], immediates = [], signals = [], journal = [], invocations = []\<rparr>"

definition world1 :: world where
  "world1 = preRequest 0 world0"

definition fi0 :: field_info where
  "fi0 = \<lparr>typeName = ''Query'', fieldName = ''x''\<rparr>"

definition ri0 :: resolve_info where
  "ri0 = \<lparr>info_fieldName = ''x''\<rparr>"

definition ctx0 :: ctxval where
  "ctx0 = CtxObj (DdContext 0)"

text \<open>
  An application with these resolvers: 0 returns a number; 1 throws if the
  request context 0 already lists a call and returns null otherwise; 2 returns
  the promise 7; 3 returns an array of the promises 1, 2 and 3; 4 returns
  \<^verbatim>\<open>{ then(cb) { cb(); } }\<close>; 5 returns
  \<^verbatim>\<open>{ then(cb) { cb(); cb(); return { catch() {} }; } }\<close>; 6 returns
  \<^verbatim>\<open>{ then: (f, r) => p7.then(f, r) }\<close>; every other one returns \<^verbatim>\<open>{ then() {} }\<close>.
\<close>

definition host0 :: host where
  "host0 =
     \<lparr>user_fn = (\<lambda>f p a ctx ri w.
          if f = 0 then Returns (VNum 1)
          else if f = 1 then
            (if resolverCalls (contexts w 0) = [] then Returns VNull
             else Throws (VStr ''boom''))
          else if f = 2 then Returns (VPromise 7)
          else if f = 3 then Returns (VArray [VPromise 1, VPromise 2, VPromise 3])
          else if f = 4 then Returns (VObject [(''then'', VFun 10)])
          else if f = 5 then Returns (VObject [(''then'', VFun 11)])
          else if f = 6 then Returns (VObject [(''then'', VFun 13)])
          else Returns (VObject [(''then'', VFun 0)])),
      call_property = (\<lambda>f this a ctx. Returns (VStr ''called'')),
      callback_property = (\<lambda>f this.
          if f = 10 then Calls 1 (Returns VUndefined)
          else if f = 11 then Calls 2 (Returns (VObject [(''catch'', VFun 12)]))
          else if f = 13 then Forwards 7
          else Calls 0 (Returns VUndefined)),
      builtin = (\<lambda>v n. VUndefined)\<rparr>"


section \<open>Following one report through the events\<close>

text \<open>
  The report a handler writes to, and the reports a chain can write to.
\<close>

fun handler_addr :: "handler \<Rightarrow> addr" where
  "handler_addr (FinishRun r c) = r"
| "handler_addr (ErrorFinishRun r c) = r"

fun chain_addrs :: "deferred \<Rightarrow> addr list" where
  "chain_addrs (OfPromise q) = []"
| "chain_addrs (OfAll ss) = []"
| "chain_addrs (ThenOf d h) = handler_addr h # chain_addrs d"
| "chain_addrs (CatchOf d h) = handler_addr h # chain_addrs d"

text \<open>The assignments made so far to the report at \<open>r\<close>, oldest first.\<close>

definition writes_of :: "addr \<Rightarrow> world \<Rightarrow> wfield list" where
  "writes_of r w = map snd (filter (\<lambda>e. fst e = r) (journal w))"

text \<open>
  A state mentions allocated reports only: no waiting chain and no journal entry
  refers to a report that \<^verbatim>\<open>decoratedResolver\<close> has yet to create.
\<close>

definition allocated :: "world \<Rightarrow> bool" where
  "allocated w \<longleftrightarrow>
     (\<forall>d \<in> set (chains w). \<forall>x \<in> set (chain_addrs d). x < next_addr w) \<and>
     (\<forall>e \<in> set (journal w). fst e < next_addr w)"


definition attached :: "deferred \<Rightarrow> addr \<Rightarrow> cid \<Rightarrow> deferred" where
  "attached base r c = CatchOf (ThenOf base (FinishRun r c)) (ErrorFinishRun r c)"


text \<open>
  A later state \<open>w'\<close> extends \<open>w\<close>: the reports of \<open>w\<close> and their journal entries
  are as they were, the chains of \<open>w\<close> still wait, followed by chains that write
  to newer reports only, and the promises that had settled are as they were.
\<close>

definition extends :: "world \<Rightarrow> world \<Rightarrow> bool" where
  "extends w w' \<longleftrightarrow>
     next_addr w \<le> next_addr w' \<and>
     (\<forall>q. pstates w q \<noteq> Pending \<longrightarrow> pstates w' q = pstates w q) \<and>
     (\<forall>r < next_addr w. heap w' r = heap w r \<and> writes_of r w' = writes_of r w) \<and>
     (\<exists>cs. chains w' = chains w @ cs \<and>
        (\<forall>d \<in> set cs. \<forall>x \<in> set (chain_addrs d). next_addr w \<le> x))"

text \<open>
  The state \<open>w'\<close> differs from \<open>w\<close> at most in the report \<open>r\<close>, in journal entries
  for \<open>r\<close> and in new chains that write to \<open>r\<close> only.
\<close>

definition touched :: "addr \<Rightarrow> world \<Rightarrow> world \<Rightarrow> bool" where
  "touched r w w' \<longleftrightarrow>
     next_addr w' = next_addr w \<and> pstates w' = pstates w \<and>
     (\<forall>x. x \<noteq> r \<longrightarrow> heap w' x = heap w x) \<and>
     (\<exists>js. journal w' = journal w @ js \<and> (\<forall>e \<in> set js. fst e = r)) \<and>
     (\<exists>cs. chains w' = chains w @ cs \<and> (\<forall>d \<in> set cs. \<forall>x \<in> set (chain_addrs d). x = r))"





text \<open>
  The thenables of an array (lines 178 to 182). The native promise a single
  result stands for: itself, or the one its \<^verbatim>\<open>then\<close> forwards to. A thenable is
  self-calling when its \<^verbatim>\<open>then\<close> deals with the callback itself. The promise the
  wrapper waits for given the result. A result counts as settled when that
  promise is no longer pending: a promise when it has settled, an array when
  none of its elements is pending, a value that is not a thenable always.
\<close>

definition thenables :: "jsval list \<Rightarrow> jsval list" where
  "thenables vs = filter (\<lambda>v. truthy v \<and> callable_then v) vs"

fun promise_of :: "host \<Rightarrow> jsval \<Rightarrow> pid option" where
  "promise_of h (VPromise q) = Some q"
| "promise_of h (VObject ps) =
     (case callback_of h (VObject ps) ''then'' of Some (Forwards q) \<Rightarrow> Some q | _ \<Rightarrow> None)"
| "promise_of h v = None"

definition self_calling :: "host \<Rightarrow> jsval \<Rightarrow> bool" where
  "self_calling h v \<longleftrightarrow> callable_then v \<and> promise_of h v = None"

fun awaited :: "host \<Rightarrow> jsval \<Rightarrow> deferred option" where
  "awaited h (VArray vs) =
     (if thenables vs = [] then None else Some (OfAll (map (element h) (thenables vs))))"
| "awaited h v = map_option OfPromise (promise_of h v)"




fun outcome_self_calling :: "host \<Rightarrow> outcome \<Rightarrow> bool" where
  "outcome_self_calling h (Throws e) = False"
| "outcome_self_calling h (Returns v) = self_calling h v"

fun flow_world :: "flow \<Rightarrow> world" where
  "flow_world (EarlyReturn w) = w"
| "flow_world (DefaultReturn w) = w"
| "flow_world (Raised e w) = w"

fun methval_addrs :: "methval \<Rightarrow> addr list" where
  "methval_addrs (Derived d) = chain_addrs d"
| "methval_addrs (Plain v) = []"

fun attempt_world :: "attempt \<Rightarrow> world" where
  "attempt_world (Value m w) = w"
| "attempt_world (Thrown e w) = w"

fun attempt_addrs :: "attempt \<Rightarrow> addr list" where
  "attempt_addrs (Value m w) = methval_addrs m"
| "attempt_addrs (Thrown e w) = []"

text \<open>The state after a decorated call of resolver \<open>f\<close> of \<open>host0\<close> in \<open>world1\<close>.\<close>

definition after_call :: "fid \<Rightarrow> world" where
  "after_call f =
     snd (decorateField host0 (apply_resolver host0 (UserFn f)) fi0 VNull VNull ctx0 ri0 world1)"

section \<open>A resolver that throws\<close>

text \<open>
  C4. When the context carries a request context and the wrapped function,
  called in the state in which the report is already on the context's
  \<^verbatim>\<open>resolverCalls\<close>, throws \<open>e\<close>: the wrapper throws the same \<open>e\<close>, the report is
  still the last of \<^verbatim>\<open>resolverCalls\<close>, its \<^verbatim>\<open>error\<close> is true and its \<^verbatim>\<open>endOffset\<close>
  is set.
\<close>

theorem decorateField_sync_throw:
  assumes "datadogContext_of ctx = DdContext c"
    and "fn p a ctx ri (startReport fi ri ctx c w) = (Throws e, w2)"
    and "app_step (startReport fi ri ctx c w) w2"
  shows "resolverCalls (contexts (startReport fi ri ctx c w) c)
         = resolverCalls (contexts w c) @ [next_addr w]
     \<and> fst (decorateField h fn fi p a ctx ri w) = Throws e
     \<and> resolverCalls (contexts (snd (decorateField h fn fi p a ctx ri w)) c)
         = resolverCalls (contexts w c) @ [next_addr w]
     \<and> error (heap (snd (decorateField h fn fi p a ctx ri w)) (next_addr w))
     \<and> endOffset (heap (snd (decorateField h fn fi p a ctx ri w)) (next_addr w))
         = Some (hrclock w2 - startHrTime (contexts w c))
     \<and> fieldInfo (heap (snd (decorateField h fn fi p a ctx ri w)) (next_addr w)) = fi"
proof -
  let ?w1 = "startReport fi ri ctx c w"
  from assms(3) have w2: "w2 = ?w1\<lparr>hrclock := hrclock w2, wallclock := wallclock w2,
      invocations := invocations w2\<rparr>"
    by (simp add: app_step_def)
  have res: "decorateField h fn fi p a ctx ri w
      = (Throws e, finishRun (next_addr w) c (set_error (next_addr w) w2))"
    using assms(1,2) by (simp add: decorateField_def decoratedResolver_def Let_def)
  have c1: "resolverCalls (contexts ?w1 c) = resolverCalls (contexts w c) @ [next_addr w]"
    by (simp add: startReport_def Let_def)
  have h2: "heap w2 = heap ?w1" "contexts w2 = contexts ?w1"
    by (subst w2, simp)+
  show ?thesis
    using c1 by (simp add: res finishRun_def set_error_def h2 process_hrtime_def)
      (simp add: startReport_def Let_def)
qed

theorem decorateField_sync_throw_witness:
  "fst (decorateField host0 (apply_resolver host0 (UserFn 1)) fi0 VNull VNull ctx0 ri0 world1)
     = Throws (VStr ''boom'')
   \<and> resolverCalls (contexts (snd (decorateField host0 (apply_resolver host0 (UserFn 1)) fi0
        VNull VNull ctx0 ri0 world1)) 0) = [0]
   \<and> error (heap (snd (decorateField host0 (apply_resolver host0 (UserFn 1)) fi0
        VNull VNull ctx0 ri0 world1)) 0)"
proof -
  let ?w1 = "startReport fi0 ri0 ctx0 0 world1"
  have a1: "datadogContext_of ctx0 = DdContext 0"
    by (simp add: datadogContext_of_def ctx0_def)
  have a2: "apply_resolver host0 (UserFn 1) VNull VNull ctx0 ri0 ?w1
      = (Throws (VStr ''boom''), ?w1\<lparr>invocations := invocations ?w1 @ [UserFn 1]\<rparr>)"
    by (simp add: host0_def startReport_def Let_def)
  have a3: "app_step ?w1 (?w1\<lparr>invocations := invocations ?w1 @ [UserFn 1]\<rparr>)"
    by (simp add: app_step_def)
  have nx: "next_addr world1 = 0" "resolverCalls (contexts world1 0) = []"
    by (simp_all add: world1_def preRequest_def world0_def Let_def)
  show ?thesis
    using decorateField_sync_throw [where fn = "apply_resolver host0 (UserFn 1)" and p = VNull
        and a = VNull and ctx = ctx0 and ri = ri0 and fi = fi0 and w = world1
        and c = 0 and h = host0, OF a1 a2 a3]
    by (simp add: nx)
qed

section \<open>A call without a request context\<close>

text \<open>
  With a \<^verbatim>\<open>datadogContext\<close> that is truthy and not a request context, such as
  \<^verbatim>\<open>{}\<close>, the decorated resolver is not the wrapped function: the wrapped function
  returns 1, the decorated one throws a TypeError at the push on
  \<^verbatim>\<open>resolverCalls\<close> (line 126).
\<close>

theorem decorateField_other_context_counterexample:
  "decorateField host0 (apply_resolver host0 (UserFn 0)) fi0 VNull VNull (CtxObj DdOther) ri0 world1
     = (Throws typeError, world1)
   \<and> apply_resolver host0 (UserFn 0) VNull VNull (CtxObj DdOther) ri0 world1
     = (Returns (VNum 1), world1\<lparr>invocations := [UserFn 0]\<rparr>)"
  by (simp add: decorateField_def decoratedResolver_def datadogContext_of_def host0_def world1_def
      preRequest_def world0_def Let_def)

text \<open>
  C6, amended. When the context argument is undefined or null, or its
  \<^verbatim>\<open>datadogContext\<close> is missing or falsy, the decorated resolver is the wrapped
  function: the same outcome, returned or thrown, and the same state afterwards,
  so no report is created and nothing of the instrumentation changes.
\<close>

theorem decorateField_without_context:
  assumes "datadogContext_of ctx = DdMissing"
  shows "decorateField h fn fi p a ctx ri w = fn p a ctx ri w"
  using assms by (simp add: decorateField_def decoratedResolver_def)

theorem decorateField_without_context_witness:
  "decorateField host0 (apply_resolver host0 (UserFn 1)) fi0 VNull VNull CtxUndefined ri0 world1
     = (Returns VNull, world1\<lparr>invocations := [UserFn 1]\<rparr>)
   \<and> decorateField host0 (apply_resolver host0 (UserFn 2)) fi0 VNull VNull (CtxObj DdMissing) ri0 world1
     = (Returns (VPromise 7), world1\<lparr>invocations := [UserFn 2]\<rparr>)"
proof -
  have a: "datadogContext_of CtxUndefined = DdMissing" "datadogContext_of (CtxObj DdMissing) = DdMissing"
    by (simp_all add: datadogContext_of_def)
  have i: "invocations world1 = []" "resolverCalls (contexts world1 0) = []"
    by (simp_all add: world1_def preRequest_def world0_def Let_def)
  show ?thesis
    using decorateField_without_context [where fn = "apply_resolver host0 (UserFn 1)", OF a(1),
        of host0 fi0 VNull VNull ri0 world1]
      decorateField_without_context [where fn = "apply_resolver host0 (UserFn 2)", OF a(2),
        of host0 fi0 VNull VNull ri0 world1]
    by (simp add: host0_def i)
qed

section \<open>Faults of the wrapper's own bookkeeping\<close>

text \<open>
  On \<^verbatim>\<open>{ then(cb) { cb(); } }\<close> the callback runs at once, \<^verbatim>\<open>then\<close> returns
  \<^verbatim>\<open>undefined\<close>, and the chained \<^verbatim>\<open>catch\<close> raises inside the second \<^verbatim>\<open>try\<close>.
\<close>

lemma processResult_sync_thenable:
  "processResult host0 r c (VObject [(''then'', VFun 10)]) w
     = (Throws typeError, finishRun r c w)"
  by (simp add: processResult_def classify_def then_catch_def js_then_def js_catch_def
      callback_of_def host0_def)

text \<open>
  C5. When the context carries a request context, the outcome of the wrapper
  is the outcome of the wrapped function, called in the state in which the
  report has been created and pushed: what it returns is returned, what it
  throws is thrown, and nothing else is ever thrown. In particular, when the
  wrapped function returns \<open>result\<close> and an exception is raised while the wrapper
  classifies the result and attaches continuations, the exception is discarded
  and the wrapper returns \<open>result\<close>, in the state reached when it was raised.
\<close>

theorem decorateField_faults_discarded:
  assumes "datadogContext_of ctx = DdContext c"
  shows "fst (decorateField h fn fi p a ctx ri w)
       = fst (fn p a ctx ri (startReport fi ri ctx c w))
     \<and> (\<forall>result w2 e w3.
          fn p a ctx ri (startReport fi ri ctx c w) = (Returns result, w2)
          \<and> processResult h (next_addr w) c result w2 = (Throws e, w3)
          \<longrightarrow> decorateField h fn fi p a ctx ri w = (Returns result, w3))"
proof -
  obtain out w2 where call: "fn p a ctx ri (startReport fi ri ctx c w) = (out, w2)"
    by (cases "fn p a ctx ri (startReport fi ri ctx c w)")
  show ?thesis
  proof (cases out)
    case (Throws e)
    with assms call show ?thesis
      by (simp add: decorateField_def decoratedResolver_def Let_def)
  next
    case (Returns result)
    obtain o3 w3 where pr: "processResult h (next_addr w) c result w2 = (o3, w3)"
      by (cases "processResult h (next_addr w) c result w2")
    have "o3 = Returns result \<or> (\<exists>e. o3 = Throws e)"
      using pr by (auto simp: processResult_def split: flow.splits)
    then show ?thesis
      using assms call Returns pr by (auto simp: decorateField_def decoratedResolver_def Let_def)
  qed
qed

theorem decorateField_faults_discarded_witness:
  "processResult host0 0 0 (VObject [(''then'', VFun 10)])
      ((startReport fi0 ri0 ctx0 0 world1)\<lparr>invocations := [UserFn 4]\<rparr>)
     = (Throws typeError,
        finishRun 0 0 ((startReport fi0 ri0 ctx0 0 world1)\<lparr>invocations := [UserFn 4]\<rparr>))
   \<and> decorateField host0 (apply_resolver host0 (UserFn 4)) fi0 VNull VNull ctx0 ri0 world1
     = (Returns (VObject [(''then'', VFun 10)]),
        finishRun 0 0 ((startReport fi0 ri0 ctx0 0 world1)\<lparr>invocations := [UserFn 4]\<rparr>))
   \<and> fst (decorateField host0 (apply_resolver host0 (UserFn 1)) fi0 VNull VNull ctx0 ri0 world1)
     = Throws (VStr ''boom'')"
proof -
  let ?w1 = "startReport fi0 ri0 ctx0 0 world1"
  let ?w2 = "?w1\<lparr>invocations := [UserFn 4]\<rparr>"
  have a1: "datadogContext_of ctx0 = DdContext 0"
    by (simp add: datadogContext_of_def ctx0_def)
  have i: "invocations ?w1 = []" "next_addr world1 = 0"
    by (simp_all add: startReport_def world1_def preRequest_def world0_def Let_def)
  have a2: "apply_resolver host0 (UserFn 4) VNull VNull ctx0 ri0 ?w1
      = (Returns (VObject [(''then'', VFun 10)]), ?w2)"
    by (simp add: host0_def i)
  have a3: "fst (apply_resolver host0 (UserFn 1) VNull VNull ctx0 ri0 ?w1) = Throws (VStr ''boom'')"
    by (simp add: host0_def startReport_def Let_def)
  have f: "processResult host0 0 0 (VObject [(''then'', VFun 10)]) ?w2
      = (Throws typeError, finishRun 0 0 ?w2)"
    by (rule processResult_sync_thenable)
  note t4 = decorateField_faults_discarded [where fn = "apply_resolver host0 (UserFn 4)"
        and p = VNull and a = VNull and ctx = ctx0 and ri = ri0 and fi = fi0 and w = world1
        and c = 0 and h = host0, OF a1]
  note t1 = decorateField_faults_discarded [where fn = "apply_resolver host0 (UserFn 1)"
        and p = VNull and a = VNull and ctx = ctx0 and ri = ri0 and fi = fi0 and w = world1
        and c = 0 and h = host0, OF a1]
  from t4 a2 f have "decorateField host0 (apply_resolver host0 (UserFn 4)) fi0 VNull VNull ctx0 ri0
      world1 = (Returns (VObject [(''then'', VFun 10)]), finishRun 0 0 ?w2)"
    unfolding i(2) by blast
  moreover from t1 a3
  have "fst (decorateField host0 (apply_resolver host0 (UserFn 1)) fi0 VNull VNull ctx0 ri0 world1)
      = Throws (VStr ''boom'')"
    by simp
  ultimately show ?thesis using f by simp
qed

section \<open>The schema-level resolve function\<close>

text \<open>
  C8. Called with a context that is undefined or null, the function given to
  \<^verbatim>\<open>addSchemaLevelResolveFunction\<close> throws a TypeError on reading
  \<^verbatim>\<open>ctx.datadogContext\<close> (line 264) instead of returning the root value.
\<close>

theorem schemaLevelResolve_without_ctx_throws:
  "schemaLevelResolve root args CtxUndefined info w = (Throws typeError, w)
   \<and> schemaLevelResolve root args CtxNull info w = (Throws typeError, w)"
  by (simp add: schemaLevelResolve_def)

text \<open>
  With a context object it returns the root value, and signals the start of the
  trace exactly when \<^verbatim>\<open>datadogContext\<close> is truthy.
\<close>

lemma schemaLevelResolve_with_object:
  "schemaLevelResolve root args (CtxObj d) info w =
     (Returns root, if d = DdMissing then w
                    else w\<lparr>signals := signals w @ [TraceStarted d info (CtxObj d)]\<rparr>)"
  by (simp add: schemaLevelResolve_def reportRequestStart_def)

section \<open>The default resolver on its sources\<close>

text \<open>
  C9. On the parent value null, whose \<^verbatim>\<open>typeof\<close> is \<^verbatim>\<open>'object'\<close>, the default
  resolver reads a property of null and throws a TypeError instead of returning
  undefined.
\<close>

theorem defaultResolveFn_null_source_throws:
  "defaultResolveFn h VNull args context info = Throws typeError"
  by (simp add: defaultResolveFn_def)

text \<open>
  On an object it returns the property named by the field, or calls it with
  \<^verbatim>\<open>(args, context)\<close> when it is a function; on a value that is neither an object
  nor a function it returns undefined.
\<close>

lemma defaultResolveFn_object:
  "defaultResolveFn h (VObject ps) args context info =
     (case map_of ps (info_fieldName info) of
        None \<Rightarrow> Returns VUndefined
      | Some (VFun f) \<Rightarrow> call_property h f (VObject ps) args context
      | Some v \<Rightarrow> Returns v)"
  by (simp add: defaultResolveFn_def split: option.splits jsval.splits)

lemma defaultResolveFn_primitive:
  "typeof source \<noteq> ''object'' \<Longrightarrow> typeof source \<noteq> ''function'' \<Longrightarrow>
   defaultResolveFn h source args context info = Returns VUndefined"
  by (simp add: defaultResolveFn_def)

section \<open>The end of a request that has no context\<close>

text \<open>
  After \<^verbatim>\<open>postRequest\<close> on a request with no context, the request still has no
  context, and no context has been created.
\<close>

theorem postRequest_without_context_counterexample:
  "slots (postRequest 0 world0) 0 = None \<and> next_cid (postRequest 0 world0) = next_cid world0"
  by (simp add: postRequest_def world0_def)

text \<open>
  C10, amended. On a request that has no context attached, \<^verbatim>\<open>postRequest\<close> does
  nothing. It is \<^verbatim>\<open>newContext\<close> that runs \<^verbatim>\<open>preRequest\<close> again for such a request:
  afterwards a new context with no calls, stamped with the agent, is attached
  to the request.
\<close>

theorem postRequest_without_context:
  assumes "slots w r = None"
  shows "postRequest r w = w
     \<and> slots (snd (newContext r ag w)) r = Some (next_cid w)
     \<and> fst (newContext r ag w) = next_cid w
     \<and> resolverCalls (contexts (snd (newContext r ag w)) (next_cid w)) = []
     \<and> agent (contexts (snd (newContext r ag w)) (next_cid w)) = Some ag"
  using assms by (simp add: postRequest_def newContext_def preRequest_def Let_def)

theorem postRequest_without_context_witness:
  "postRequest 0 world0 = world0 \<and> slots (snd (newContext 0 5 world0)) 0 = Some 0"
proof -
  have "slots world0 0 = None" by (simp add: world0_def)
  from postRequest_without_context [OF this, of 5] show ?thesis
    by (simp add: world0_def)
qed

section \<open>Instrumenting a schema more than once\<close>




















section \<open>An array of promises, one of which rejects first\<close>

text \<open>
  C3. The resolver returns an array of the three pending promises 1, 2 and 3.
  Five nanoseconds later promise 3 rejects. The report now has \<^verbatim>\<open>error\<close> true and
  its \<^verbatim>\<open>endOffset\<close> set, while promises 1 and 2 are still pending: \<^verbatim>\<open>Promise.all\<close>
  rejects at the first rejection.
\<close>

theorem promise_all_finishes_at_first_rejection:
  "endOffset (heap (run host0 [Tick 5, Reject 3 (VStr ''boom'')]
       (snd (decorateField host0 (apply_resolver host0 (UserFn 3)) fi0 VNull VNull ctx0 ri0 world1))) 0)
     = Some 5
   \<and> error (heap (run host0 [Tick 5, Reject 3 (VStr ''boom'')]
       (snd (decorateField host0 (apply_resolver host0 (UserFn 3)) fi0 VNull VNull ctx0 ri0 world1))) 0)
   \<and> pstates (run host0 [Tick 5, Reject 3 (VStr ''boom'')]
       (snd (decorateField host0 (apply_resolver host0 (UserFn 3)) fi0 VNull VNull ctx0 ri0 world1))) 1
     = Pending
   \<and> pstates (run host0 [Tick 5, Reject 3 (VStr ''boom'')]
       (snd (decorateField host0 (apply_resolver host0 (UserFn 3)) fi0 VNull VNull ctx0 ri0 world1))) 2
     = Pending"
  by (simp add: decorateField_def decoratedResolver_def datadogContext_of_def ctx0_def host0_def
      startReport_def world1_def preRequest_def world0_def processResult_def classify_def
      then_catch_def js_then_def js_catch_def promise_all_def element_def step_def microtasks_def
      settle_def all_state_def source_state_def finishRun_def set_error_def process_hrtime_def
      Let_def)

text \<open>
  When the two fulfilments come first, \<^verbatim>\<open>endOffset\<close> stays unset until the third
  promise rejects.
\<close>

lemma promise_all_waits_for_fulfilments:
  "endOffset (heap (run host0 [Resolve 1 VNull, Resolve 2 VNull] (after_call 3)) 0) = None
   \<and> endOffset (heap (run host0 [Resolve 1 VNull, Resolve 2 VNull, Tick 4, Reject 3 (VStr ''boom'')]
        (after_call 3)) 0) = Some 4
   \<and> error (heap (run host0 [Resolve 1 VNull, Resolve 2 VNull, Tick 4, Reject 3 (VStr ''boom'')]
        (after_call 3)) 0)"
  by (simp add: after_call_def decorateField_def decoratedResolver_def datadogContext_of_def
      ctx0_def host0_def startReport_def world1_def preRequest_def world0_def processResult_def
      classify_def then_catch_def js_then_def js_catch_def promise_all_def element_def step_def
      microtasks_def settle_def all_state_def source_state_def finishRun_def set_error_def
      process_hrtime_def Let_def)

section \<open>What the handlers write\<close>

lemma finishRun_fields [simp]:
  "pstates (finishRun r c w) = pstates w" "chains (finishRun r c w) = chains w"
  "contexts (finishRun r c w) = contexts w" "hrclock (finishRun r c w) = hrclock w"
  "next_addr (finishRun r c w) = next_addr w"
  "x \<noteq> r \<Longrightarrow> heap (finishRun r c w) x = heap w x"
  "heap (finishRun r c w) r
     = (heap w r)\<lparr>endOffset := Some (hrclock w - startHrTime (contexts w c))\<rparr>"
  by (simp_all add: finishRun_def process_hrtime_def)

lemma set_error_fields [simp]:
  "pstates (set_error r w) = pstates w" "chains (set_error r w) = chains w"
  "contexts (set_error r w) = contexts w" "hrclock (set_error r w) = hrclock w"
  "next_addr (set_error r w) = next_addr w"
  "x \<noteq> r \<Longrightarrow> heap (set_error r w) x = heap w x"
  "heap (set_error r w) r = (heap w r)\<lparr>error := True\<rparr>"
  by (simp_all add: set_error_def)

lemma writes_of_finishRun [simp]:
  "writes_of x (finishRun r c w) = writes_of x w @ (if x = r then [WEndOffset] else [])"
  by (simp add: writes_of_def finishRun_def)

lemma writes_of_set_error [simp]:
  "writes_of x (set_error r w) = writes_of x w @ (if x = r then [WError] else [])"
  by (simp add: writes_of_def set_error_def)

lemma run_handler_fields [simp]:
  "pstates (run_handler h w) = pstates w" "chains (run_handler h w) = chains w"
  "contexts (run_handler h w) = contexts w" "hrclock (run_handler h w) = hrclock w"
  "next_addr (run_handler h w) = next_addr w"
  by (cases h; simp)+

lemma run_handler_other:
  "handler_addr h \<noteq> x \<Longrightarrow> heap (run_handler h w) x = heap w x"
  "handler_addr h \<noteq> x \<Longrightarrow> writes_of x (run_handler h w) = writes_of x w"
  by (cases h; simp)+

section \<open>The state of a chain depends on the promise states only\<close>

lemma source_state_cong: "pstates w1 = pstates w2 \<Longrightarrow> source_state w1 s = source_state w2 s"
  by (simp add: source_state_def split: source.splits)

lemma all_state_cong:
  assumes "pstates w1 = pstates w2"
  shows "all_state w1 ss = all_state w2 ss"
proof -
  have m: "map (source_state w1) ss = map (source_state w2) ss"
    using source_state_cong [OF assms] by simp
  show ?thesis by (simp only: all_state_def m)
qed

lemma chain_state_cong:
  assumes "pstates w1 = pstates w2"
  shows "chain_state w1 d = chain_state w2 d"
  using assms all_state_cong [OF assms] by (induction d) simp_all

section \<open>Running a chain\<close>

lemma run_chain_fields:
  "pstates (snd (run_chain d w)) = pstates w \<and> chains (snd (run_chain d w)) = chains w \<and>
   contexts (snd (run_chain d w)) = contexts w \<and> hrclock (snd (run_chain d w)) = hrclock w \<and>
   next_addr (snd (run_chain d w)) = next_addr w"
proof (induction d)
  case (ThenOf d h)
  then show ?case
    by (cases "run_chain d w"; cases "fst (run_chain d w)") simp_all
next
  case (CatchOf d h)
  then show ?case
    by (cases "run_chain d w"; cases "fst (run_chain d w)") simp_all
qed simp_all


lemma run_chain_other:
  "x \<notin> set (chain_addrs d) \<Longrightarrow>
   heap (snd (run_chain d w)) x = heap w x \<and> writes_of x (snd (run_chain d w)) = writes_of x w"
proof (induction d)
  case (ThenOf d h)
  then show ?case
    by (cases "run_chain d w"; cases "fst (run_chain d w)") (auto simp: run_handler_other)
next
  case (CatchOf d h)
  then show ?case
    by (cases "run_chain d w"; cases "fst (run_chain d w)") (auto simp: run_handler_other)
qed simp_all




section \<open>A microtask checkpoint\<close>

lemma drain_fields:
  "pstates (snd (drain ds w)) = pstates w \<and> chains (snd (drain ds w)) = chains w \<and>
   contexts (snd (drain ds w)) = contexts w \<and> hrclock (snd (drain ds w)) = hrclock w \<and>
   next_addr (snd (drain ds w)) = next_addr w"
proof (induction ds arbitrary: w)
  case Nil
  show ?case by simp
next
  case (Cons d ds)
  show ?case
  proof (cases "chain_state w d = Pending")
    case True
    then show ?thesis
      using Cons.IH [of w] by (cases "drain ds w") simp
  next
    case False
    then show ?thesis
      using Cons.IH [of "snd (run_chain d w)"] run_chain_fields [of d w] by simp
  qed
qed

lemma drain_keeps:
  "fst (drain ds w) = filter (\<lambda>d. chain_state w d = Pending) ds"
proof (induction ds arbitrary: w)
  case Nil
  show ?case by simp
next
  case (Cons d ds)
  show ?case
  proof (cases "chain_state w d = Pending")
    case True
    then show ?thesis
      using Cons.IH [of w] by (cases "drain ds w") simp
  next
    case False
    have "pstates (snd (run_chain d w)) = pstates w"
      using run_chain_fields [of d w] by simp
    then have "\<And>x. chain_state (snd (run_chain d w)) x = chain_state w x"
      by (rule chain_state_cong)
    then show ?thesis
      using False Cons.IH [of "snd (run_chain d w)"] by simp
  qed
qed

lemma drain_other:
  "\<forall>d \<in> set ds. x \<notin> set (chain_addrs d) \<Longrightarrow>
   heap (snd (drain ds w)) x = heap w x \<and> writes_of x (snd (drain ds w)) = writes_of x w"
proof (induction ds arbitrary: w)
  case Nil
  show ?case by simp
next
  case (Cons d ds)
  show ?case
  proof (cases "chain_state w d = Pending")
    case True
    then show ?thesis
      using Cons.IH [of w] Cons.prems by (cases "drain ds w") simp
  next
    case False
    then show ?thesis
      using Cons.IH [of "snd (run_chain d w)"] Cons.prems run_chain_other [of x d w] by simp
  qed
qed


lemma microtasks_fields:
  "pstates (microtasks w) = pstates w \<and> contexts (microtasks w) = contexts w \<and>
   hrclock (microtasks w) = hrclock w \<and> next_addr (microtasks w) = next_addr w \<and>
   chains (microtasks w) = filter (\<lambda>d. chain_state w d = Pending) (chains w)"
  using drain_fields [of "chains w" w] drain_keeps [of "chains w" w]
  by (cases "drain (chains w) w") (simp add: microtasks_def)

lemma microtasks_heap:
  "heap (microtasks w) = heap (snd (drain (chains w) w)) \<and>
   writes_of x (microtasks w) = writes_of x (snd (drain (chains w) w))"
  by (cases "drain (chains w) w") (simp add: microtasks_def writes_of_def)



section \<open>What a call of a resolver changes\<close>

lemma promise_of_thenable: "promise_of h v = Some q \<Longrightarrow> callable_then v"
  by (cases v) (auto simp: callback_of_def split: option.splits jsval.splits callback_use.splits)

lemma then_catch_promise:
  assumes "promise_of h v = Some q"
  shows "then_catch h (receiver v) r c w
     = EarlyReturn (w\<lparr>chains := chains w @ [attached (OfPromise q) r c]\<rparr>)"
proof (cases v)
  case (VPromise x)
  with assms show ?thesis
    by (simp add: then_catch_def js_then_def js_catch_def attached_def)
next
  case (VObject ps)
  with assms have "callback_of h (VObject ps) ''then'' = Some (Forwards q)"
    by (auto split: option.splits callback_use.splits)
  with VObject show ?thesis
    by (simp add: then_catch_def js_then_def js_catch_def attached_def)
qed (use assms in simp_all)

lemma then_catch_all:
  "then_catch h (promise_all h vs) r c w
     = EarlyReturn (w\<lparr>chains := chains w @ [attached (OfAll (map (element h) vs)) r c]\<rparr>)"
  by (simp add: then_catch_def promise_all_def js_then_def js_catch_def attached_def)

lemma classify_cases:
  assumes "\<not> self_calling h v"
  shows "classify h r c v w =
     (if v = VNull then DefaultReturn (set_resultNull r w)
      else if v = VUndefined then DefaultReturn (set_resultUndefined r w)
      else case awaited h v of
             Some base \<Rightarrow> EarlyReturn (w\<lparr>chains := chains w @ [attached base r c]\<rparr>)
           | None \<Rightarrow> DefaultReturn w)"
proof (cases "callable_then v")
  case True
  with assms obtain q where q: "promise_of h v = Some q"
    by (auto simp: self_calling_def)
  from True have nv: "v \<noteq> VNull" "v \<noteq> VUndefined" by auto
  from True q have aw: "awaited h v = Some (OfPromise q)" by (cases v) simp_all
  from True nv aw then_catch_promise [OF q, of r c w] show ?thesis
    by (simp add: classify_def)
next
  case False
  then have pn: "promise_of h v = None"
    using promise_of_thenable [of h v] by (cases "promise_of h v") auto
  show ?thesis
  proof (cases v)
    case (VArray vs)
    then show ?thesis
      by (simp add: classify_def thenables_def then_catch_all Let_def)
  qed (use False pn in \<open>simp_all add: classify_def\<close>)
qed


lemma set_result_fields [simp]:
  "chains (set_resultNull r w) = chains w" "chains (set_resultUndefined r w) = chains w"
  "endOffset (heap (set_resultNull r w) x) = endOffset (heap w x)"
  "endOffset (heap (set_resultUndefined r w) x) = endOffset (heap w x)"
  "error (heap (set_resultNull r w) x) = error (heap w x)"
  "error (heap (set_resultUndefined r w) x) = error (heap w x)"
  "pstates (set_resultNull r w) = pstates w" "pstates (set_resultUndefined r w) = pstates w"
  "next_addr (set_resultNull r w) = next_addr w" "next_addr (set_resultUndefined r w) = next_addr w"
  "writes_of x (set_resultNull r w) = writes_of x w @ (if x = r then [WResultNull] else [])"
  "writes_of x (set_resultUndefined r w) = writes_of x w @ (if x = r then [WResultUndefined] else [])"
  by (simp_all add: set_resultNull_def set_resultUndefined_def writes_of_def)

lemma decorated_world:
  assumes dd: "datadogContext_of ctx = DdContext c"
    and call: "fn p a ctx ri (startReport fi ri ctx c w) = (out, w2)"
    and ns: "\<not> outcome_self_calling h out"
  shows "decorateField h fn fi p a ctx ri w =
     (out,
      case out of
        Throws e \<Rightarrow> finishRun (next_addr w) c (set_error (next_addr w) w2)
      | Returns v \<Rightarrow>
          if v = VNull then finishRun (next_addr w) c (set_resultNull (next_addr w) w2)
          else if v = VUndefined then
            finishRun (next_addr w) c (set_resultUndefined (next_addr w) w2)
          else case awaited h v of
                 Some base \<Rightarrow> w2\<lparr>chains := chains w2 @ [attached base (next_addr w) c]\<rparr>
               | None \<Rightarrow> finishRun (next_addr w) c w2)"
proof (cases out)
  case (Throws e)
  then show ?thesis
    using dd call by (simp add: decorateField_def decoratedResolver_def Let_def)
next
  case (Returns v)
  with ns have nv: "\<not> self_calling h v" by simp
  have res: "decorateField h fn fi p a ctx ri w
      = (case processResult h (next_addr w) c v w2 of
           (Throws e, w3) \<Rightarrow> (Returns v, w3)
         | (Returns x, w3) \<Rightarrow> (Returns x, w3))"
    using dd call Returns by (simp add: decorateField_def decoratedResolver_def Let_def)
  show ?thesis
    unfolding res processResult_def classify_cases [OF nv] using Returns
    by (cases "awaited h v") simp_all
qed

lemma touched_writes: "touched r w w' \<Longrightarrow> x \<noteq> r \<Longrightarrow> writes_of x w' = writes_of x w"
  by (auto simp: touched_def writes_of_def)

lemma touched_finishRun: "touched r w w' \<Longrightarrow> touched r w (finishRun r c w')"
  unfolding touched_def finishRun_def by auto

lemma touched_set_error: "touched r w w' \<Longrightarrow> touched r w (set_error r w')"
  unfolding touched_def set_error_def by auto

lemma touched_set_resultNull: "touched r w w' \<Longrightarrow> touched r w (set_resultNull r w')"
  unfolding touched_def set_resultNull_def by auto

lemma touched_set_resultUndefined:
  "touched r w w' \<Longrightarrow> touched r w (set_resultUndefined r w')"
  unfolding touched_def set_resultUndefined_def by auto

lemma touched_refl: "touched r w w"
  by (simp add: touched_def)

lemma touched_attach:
  "chain_addrs base = [] \<Longrightarrow> touched r w (w\<lparr>chains := chains w @ [attached base r c]\<rparr>)"
  by (simp add: touched_def attached_def)

lemma touched_trans:
  assumes "touched r w1 w2" and "touched r w2 w3"
  shows "touched r w1 w3"
proof -
  from assms(1) obtain js1 cs1 where 1: "next_addr w2 = next_addr w1" "pstates w2 = pstates w1"
    "\<forall>x. x \<noteq> r \<longrightarrow> heap w2 x = heap w1 x"
    "journal w2 = journal w1 @ js1" "\<forall>e \<in> set js1. fst e = r"
    "chains w2 = chains w1 @ cs1" "\<forall>d \<in> set cs1. \<forall>x \<in> set (chain_addrs d). x = r"
    unfolding touched_def by blast
  from assms(2) obtain js2 cs2 where 2: "next_addr w3 = next_addr w2" "pstates w3 = pstates w2"
    "\<forall>x. x \<noteq> r \<longrightarrow> heap w3 x = heap w2 x"
    "journal w3 = journal w2 @ js2" "\<forall>e \<in> set js2. fst e = r"
    "chains w3 = chains w2 @ cs2" "\<forall>d \<in> set cs2. \<forall>x \<in> set (chain_addrs d). x = r"
    unfolding touched_def by blast
  have j: "journal w3 = journal w1 @ (js1 @ js2)" "\<forall>e \<in> set (js1 @ js2). fst e = r"
    using 1(4,5) 2(4,5) by auto
  have c: "chains w3 = chains w1 @ (cs1 @ cs2)"
    "\<forall>d \<in> set (cs1 @ cs2). \<forall>x \<in> set (chain_addrs d). x = r"
    using 1(6,7) 2(6,7) by auto
  show ?thesis
    unfolding touched_def using 1(1,2,3) 2(1,2,3) j c by (intro conjI exI) auto
qed

lemma touched_run_handler:
  "handler_addr k = r \<Longrightarrow> touched r w w' \<Longrightarrow> touched r w (run_handler k w')"
  by (cases k) (auto intro: touched_finishRun touched_set_error)

lemma touched_funpow:
  "handler_addr k = r \<Longrightarrow> touched r w w' \<Longrightarrow> touched r w ((run_handler k ^^ n) w')"
  by (induction n) (simp_all add: touched_run_handler)

lemma touched_chain:
  "touched r w w' \<Longrightarrow> \<forall>x \<in> set (chain_addrs d). x = r \<Longrightarrow>
   touched r w (w'\<lparr>chains := chains w' @ [d]\<rparr>)"
  unfolding touched_def by auto

lemma receiver_addrs: "methval_addrs (receiver v) = []"
  by (cases v) simp_all

lemma js_then_touched:
  assumes "handler_addr k = r" and "\<forall>x \<in> set (methval_addrs m). x = r" and "touched r w w1"
  shows "touched r w (attempt_world (js_then h m k w1)) \<and>
     (\<forall>x \<in> set (attempt_addrs (js_then h m k w1)). x = r)"
proof (cases m)
  case (Derived d)
  with assms show ?thesis by (simp add: js_then_def)
next
  case (Plain v)
  show ?thesis
  proof (cases "callback_of h v ''then''")
    case None
    with Plain assms(3) show ?thesis by (simp add: js_then_def)
  next
    case (Some u)
    show ?thesis
    proof (cases u)
      case (Calls n out)
      from assms(1,3) have "touched r w ((run_handler k ^^ n) w1)" by (rule touched_funpow)
      with Plain Some Calls show ?thesis
        by (cases out) (simp_all add: js_then_def receiver_addrs)
    next
      case (Forwards q)
      with Plain Some assms(1,3) show ?thesis by (simp add: js_then_def)
    qed
  qed
qed

lemma js_catch_touched:
  assumes "handler_addr k = r" and "\<forall>x \<in> set (methval_addrs m). x = r" and "touched r w w1"
  shows "touched r w (attempt_world (js_catch h m k w1))"
proof (cases m)
  case (Derived d)
  from assms have "touched r w (w1\<lparr>chains := chains w1 @ [CatchOf d k]\<rparr>)"
    using Derived by (intro touched_chain) simp_all
  with Derived show ?thesis by (simp add: js_catch_def)
next
  case (Plain v)
  show ?thesis
  proof (cases "callback_of h v ''catch''")
    case None
    with Plain assms(3) show ?thesis by (simp add: js_catch_def)
  next
    case (Some u)
    show ?thesis
    proof (cases u)
      case (Calls n out)
      from assms(1,3) have "touched r w ((run_handler k ^^ n) w1)" by (rule touched_funpow)
      with Plain Some Calls show ?thesis
        by (cases out) (simp_all add: js_catch_def)
    next
      case (Forwards q)
      from assms(1,3) have "touched r w (w1\<lparr>chains := chains w1 @ [CatchOf (OfPromise q) k]\<rparr>)"
        by (intro touched_chain) simp_all
      with Plain Some Forwards show ?thesis by (simp add: js_catch_def)
    qed
  qed
qed

lemma then_catch_touched:
  assumes "methval_addrs m = []" and "touched r w w1"
  shows "touched r w (flow_world (then_catch h m r c w1))"
proof -
  have m: "\<forall>x \<in> set (methval_addrs m). x = r" using assms(1) by simp
  note t = js_then_touched [where k = "FinishRun r c" and h = h, OF _ m assms(2)]
  show ?thesis
  proof (cases "js_then h m (FinishRun r c) w1")
    case (Thrown e w')
    with t show ?thesis by (simp add: then_catch_def)
  next
    case (Value m' w')
    with t have t': "touched r w w'" and m': "\<forall>x \<in> set (methval_addrs m'). x = r"
      by simp_all
    from js_catch_touched [where k = "ErrorFinishRun r c" and h = h, OF _ m' t'] Value
    show ?thesis
      by (cases "js_catch h m' (ErrorFinishRun r c) w'") (simp_all add: then_catch_def)
  qed
qed

lemma classify_touched:
  assumes "touched r w w1"
  shows "touched r w (flow_world (classify h r c v w1))"
proof -
  have a: "touched r w (flow_world (then_catch h (receiver v) r c w1))"
    using receiver_addrs assms by (rule then_catch_touched)
  have b: "touched r w (flow_world (then_catch h (promise_all h vs) r c w1))" for vs
    using assms by (intro then_catch_touched) (simp add: promise_all_def)
  have n: "touched r w (set_resultNull r w1)" "touched r w (set_resultUndefined r w1)"
    using assms by (simp_all add: touched_set_resultNull touched_set_resultUndefined)
  show ?thesis
    using a b n assms by (cases v) (simp_all add: classify_def Let_def)
qed

lemma processResult_touched: "touched r w (snd (processResult h r c v w))"
proof -
  note t = classify_touched [OF touched_refl, of r w h c v]
  show ?thesis
  proof (cases "classify h r c v w")
    case (DefaultReturn w')
    with t have "touched r w (finishRun r c w')" by (simp add: touched_finishRun)
    with DefaultReturn show ?thesis by (simp add: processResult_def)
  qed (use t in \<open>simp_all add: processResult_def\<close>)
qed

lemma decorated_touched:
  assumes dd: "datadogContext_of ctx = DdContext c"
    and call: "fn p a ctx ri (startReport fi ri ctx c w) = (out, w2)"
  shows "touched (next_addr w) w2 (snd (decorateField h fn fi p a ctx ri w))"
proof -
  let ?r = "next_addr w"
  note t = touched_refl [of ?r w2]
  show ?thesis
  proof (cases out)
    case (Throws e)
    from t have "touched ?r w2 (finishRun ?r c (set_error ?r w2))"
      by (intro touched_finishRun touched_set_error)
    then show ?thesis
      using dd call Throws by (simp add: decorateField_def decoratedResolver_def Let_def)
  next
    case (Returns v)
    have "snd (decorateField h fn fi p a ctx ri w) = snd (processResult h ?r c v w2)"
      using dd call Returns
      by (cases "processResult h ?r c v w2"; cases "fst (processResult h ?r c v w2)")
        (simp_all add: decorateField_def decoratedResolver_def Let_def)
    then show ?thesis using processResult_touched [of ?r w2 h c v] by simp
  qed
qed

lemma extends_refl: "extends w w"
  by (simp add: extends_def)

lemma extends_trans:
  assumes "extends w1 w2" and "extends w2 w3"
  shows "extends w1 w3"
proof -
  from assms(1) obtain cs1 where 1: "next_addr w1 \<le> next_addr w2"
    "\<forall>q. pstates w1 q \<noteq> Pending \<longrightarrow> pstates w2 q = pstates w1 q"
    "\<forall>r < next_addr w1. heap w2 r = heap w1 r \<and> writes_of r w2 = writes_of r w1"
    "chains w2 = chains w1 @ cs1"
    "\<forall>d \<in> set cs1. \<forall>x \<in> set (chain_addrs d). next_addr w1 \<le> x"
    unfolding extends_def by blast
  from assms(2) obtain cs2 where 2: "next_addr w2 \<le> next_addr w3"
    "\<forall>q. pstates w2 q \<noteq> Pending \<longrightarrow> pstates w3 q = pstates w2 q"
    "\<forall>r < next_addr w2. heap w3 r = heap w2 r \<and> writes_of r w3 = writes_of r w2"
    "chains w3 = chains w2 @ cs2"
    "\<forall>d \<in> set cs2. \<forall>x \<in> set (chain_addrs d). next_addr w2 \<le> x"
    unfolding extends_def by blast
  have a: "next_addr w1 \<le> next_addr w3" using 1(1) 2(1) by simp
  have b: "\<forall>q. pstates w1 q \<noteq> Pending \<longrightarrow> pstates w3 q = pstates w1 q"
    using 1(2) 2(2) by metis
  have c: "\<forall>r < next_addr w1. heap w3 r = heap w1 r \<and> writes_of r w3 = writes_of r w1"
    using 1(1,3) 2(3) by (metis less_le_trans)
  have d: "chains w3 = chains w1 @ (cs1 @ cs2)" using 1(4) 2(4) by simp
  have e: "\<forall>d \<in> set (cs1 @ cs2). \<forall>x \<in> set (chain_addrs d). next_addr w1 \<le> x"
    using 1(1,5) 2(5) by (auto intro: le_trans)
  show ?thesis
    unfolding extends_def using a b c d e by blast
qed

lemma extends_startReport: "extends w (startReport fi ri ctx c w)"
  by (simp add: extends_def startReport_def writes_of_def Let_def)

lemma extends_touched:
  assumes "extends w w2" and "touched r w2 w'" and "next_addr w \<le> r"
  shows "extends w w'"
proof -
  from assms(1) obtain cs1 where 1: "next_addr w \<le> next_addr w2"
    "\<forall>q. pstates w q \<noteq> Pending \<longrightarrow> pstates w2 q = pstates w q"
    "\<forall>x < next_addr w. heap w2 x = heap w x \<and> writes_of x w2 = writes_of x w"
    "chains w2 = chains w @ cs1"
    "\<forall>d \<in> set cs1. \<forall>x \<in> set (chain_addrs d). next_addr w \<le> x"
    unfolding extends_def by blast
  from assms(2) obtain cs2 where 2: "next_addr w' = next_addr w2" "pstates w' = pstates w2"
    "\<forall>x. x \<noteq> r \<longrightarrow> heap w' x = heap w2 x"
    "chains w' = chains w2 @ cs2"
    "\<forall>d \<in> set cs2. \<forall>x \<in> set (chain_addrs d). x = r"
    unfolding touched_def by blast
  have c: "\<forall>x < next_addr w. heap w' x = heap w x \<and> writes_of x w' = writes_of x w"
  proof (intro allI impI)
    fix x assume x: "x < next_addr w"
    with assms(3) have "x \<noteq> r" by simp
    with 2(3) touched_writes [OF assms(2)] 1(3) x
    show "heap w' x = heap w x \<and> writes_of x w' = writes_of x w" by simp
  qed
  have d: "chains w' = chains w @ (cs1 @ cs2)" using 1(4) 2(4) by simp
  have e: "\<forall>d \<in> set (cs1 @ cs2). \<forall>x \<in> set (chain_addrs d). next_addr w \<le> x"
    using 1(5) 2(5) assms(3) by auto
  show ?thesis
    unfolding extends_def using 1(1,2) 2(1,2) c d e by auto
qed

lemma allocated_startReport: "allocated w \<Longrightarrow> allocated (startReport fi ri ctx c w)"
  by (auto simp: allocated_def startReport_def Let_def intro: less_SucI)

lemma allocated_touched:
  assumes "allocated w2" and "touched r w2 w'" and "r < next_addr w2"
  shows "allocated w'"
proof -
  from assms(2) obtain js cs where 2: "next_addr w' = next_addr w2"
    "journal w' = journal w2 @ js" "\<forall>e \<in> set js. fst e = r"
    "chains w' = chains w2 @ cs"
    "\<forall>d \<in> set cs. \<forall>x \<in> set (chain_addrs d). x = r"
    unfolding touched_def by blast
  show ?thesis
    unfolding allocated_def 2(1,2,4) using assms(1,3) 2(3,5)
    by (auto simp: allocated_def)
qed

text \<open>
  A call of any resolver of a schema, decorated any number of times, leaves the
  reports that exist alone, and settles no promise.
\<close>

lemma call_frame:
  "extends w (snd (apply_resolver h fn p a ctx ri w)) \<and>
   pstates (snd (apply_resolver h fn p a ctx ri w)) = pstates w \<and>
   (allocated w \<longrightarrow> allocated (snd (apply_resolver h fn p a ctx ri w)))"
proof (induction fn arbitrary: w)
  case (UserFn f)
  show ?case by (simp add: extends_def allocated_def writes_of_def)
next
  case DefaultResolveFn
  show ?case by (simp add: extends_def allocated_def writes_of_def)
next
  case (Decorated fn fi)
  show ?case
  proof (cases "datadogContext_of ctx")
    case DdMissing
    then show ?thesis
      using Decorated.IH [of w] by (simp add: decorateField_def decoratedResolver_def)
  next
    case DdOther
    then show ?thesis
      by (simp add: decorateField_def decoratedResolver_def extends_refl)
  next
    case (DdContext c)
    let ?w1 = "startReport fi ri ctx c w"
    let ?w' = "snd (decorateField h (apply_resolver h fn) fi p a ctx ri w)"
    obtain out w2 where call: "apply_resolver h fn p a ctx ri ?w1 = (out, w2)"
      by (cases "apply_resolver h fn p a ctx ri ?w1")
    from Decorated.IH [of ?w1] call
    have ih: "extends ?w1 w2" "pstates w2 = pstates ?w1" "allocated ?w1 \<longrightarrow> allocated w2"
      by simp_all
    note t = decorated_touched [where fn = "apply_resolver h fn", OF DdContext call]
    have n1: "next_addr ?w1 = Suc (next_addr w)" "pstates ?w1 = pstates w"
      by (simp_all add: startReport_def Let_def)
    from ih(1) have n2: "next_addr ?w1 \<le> next_addr w2" by (simp add: extends_def)
    have "extends w w2"
      using extends_startReport ih(1) by (rule extends_trans)
    then have e: "extends w ?w'"
      using t by (rule extends_touched) simp
    have p: "pstates ?w' = pstates w"
      using t ih(2) n1(2) by (simp add: touched_def)
    have al: "allocated w \<longrightarrow> allocated ?w'"
    proof
      assume "allocated w"
      then have "allocated ?w1" by (rule allocated_startReport)
      with ih(3) have "allocated w2" by simp
      then show "allocated ?w'"
        using t by (rule allocated_touched) (use n1(1) n2 in simp)
    qed
    from e p al show ?thesis by simp
  qed
qed

section \<open>Events\<close>

lemma step_occur: "step h e w = microtasks (occur h e w)"
  by (simp add: step_def)

lemma occur_extends: "extends w (occur h e w)"
proof (cases e)
  case (Call fn p a ctx ri)
  then show ?thesis using call_frame [of w h fn p a ctx ri] by simp
next
  case (RequestEnd r)
  then show ?thesis
    by (cases "slots w r") (simp_all add: extends_def postRequest_def writes_of_def)
qed (simp_all add: extends_def settle_def preRequest_def writes_of_def Let_def)

lemma occur_allocated: "allocated w \<Longrightarrow> allocated (occur h e w)"
proof (cases e)
  case (Call fn p a ctx ri)
  assume "allocated w"
  then show ?thesis using call_frame [of w h fn p a ctx ri] Call by simp
next
  case (RequestEnd r)
  assume "allocated w"
  then show ?thesis using RequestEnd
    by (cases "slots w r") (simp_all add: allocated_def postRequest_def)
qed (simp_all add: allocated_def settle_def preRequest_def Let_def)

lemma occur_settled: "pstates w q \<noteq> Pending \<Longrightarrow> pstates (occur h e w) q = pstates w q"
  using occur_extends [of w h e] by (simp add: extends_def)




lemma step_pstates: "pstates (step h e w) = pstates (occur h e w)"
  using microtasks_fields [of "occur h e w"] by (simp add: step_occur)

lemma step_settled: "pstates w q \<noteq> Pending \<Longrightarrow> pstates (step h e w) q = pstates w q"
  by (simp add: step_pstates occur_settled)



lemma run_settled: "pstates w q \<noteq> Pending \<Longrightarrow> pstates (run h es w) q = pstates w q"
  by (induction es arbitrary: w) (simp_all add: step_settled)

lemma run_append: "run h (es @ es') w = run h es' (run h es w)"
  by (induction es arbitrary: w) simp_all













section \<open>A report that waits for a promise\<close>







section \<open>The state the wrapper leaves\<close>




section \<open>A resolver that returns a promise\<close>



section \<open>The end of a report is recorded once\<close>




















section \<open>Every reachable state mentions allocated reports only\<close>

lemma writes_of_empty: "writes_of x w = [] \<longleftrightarrow> (\<forall>e \<in> set (journal w). fst e \<noteq> x)"
  by (auto simp: writes_of_def filter_empty_conv)

lemma allocated_microtasks:
  assumes "allocated w"
  shows "allocated (microtasks w)"
proof -
  have n: "next_addr (microtasks w) = next_addr w"
    using microtasks_fields [of w] by simp
  have c: "set (chains (microtasks w)) \<subseteq> set (chains w)"
    using microtasks_fields [of w] by auto
  have j: "fst x < next_addr w" if x: "x \<in> set (journal (microtasks w))" for x
  proof (rule ccontr)
    assume far: "\<not> fst x < next_addr w"
    then have q: "\<forall>d \<in> set (chains w). fst x \<notin> set (chain_addrs d)"
      using assms by (auto simp: allocated_def)
    have "writes_of (fst x) w = []"
      using assms far by (auto simp: writes_of_empty allocated_def)
    with drain_other [OF q, of w] microtasks_heap [of w "fst x"]
    have "writes_of (fst x) (microtasks w) = []" by simp
    with x show False by (auto simp: writes_of_empty)
  qed
  show ?thesis
    unfolding allocated_def n using assms c j by (auto simp: allocated_def)
qed

lemma allocated_step: "allocated w \<Longrightarrow> allocated (step h e w)"
  unfolding step_def by (intro allocated_microtasks occur_allocated)

lemma allocated_run: "allocated w \<Longrightarrow> allocated (run h es w)"
  by (induction es arbitrary: w) (simp_all add: allocated_step)

lemma allocated_app_step: "allocated w \<Longrightarrow> app_step w w2 \<Longrightarrow> allocated w2"
proof -
  assume a: "allocated w" and "app_step w w2"
  then have w2: "w2 = w\<lparr>hrclock := hrclock w2, wallclock := wallclock w2,
      invocations := invocations w2\<rparr>"
    by (simp add: app_step_def)
  have "chains w2 = chains w" "journal w2 = journal w" "next_addr w2 = next_addr w"
    by (subst w2, simp)+
  with a show "allocated w2" by (simp add: allocated_def)
qed

lemma allocated_decorateField:
  assumes dd: "datadogContext_of ctx = DdContext c"
    and call: "fn p a ctx ri (startReport fi ri ctx c w) = (out, w2)"
    and frame: "app_step (startReport fi ri ctx c w) w2"
    and alloc: "allocated w"
  shows "allocated (snd (decorateField h fn fi p a ctx ri w))"
proof -
  let ?w1 = "startReport fi ri ctx c w"
  from frame have w2: "w2 = ?w1\<lparr>hrclock := hrclock w2, wallclock := wallclock w2,
      invocations := invocations w2\<rparr>"
    by (simp add: app_step_def)
  have n2: "next_addr w2 = Suc (next_addr w)"
    by (subst w2) (simp add: startReport_def Let_def)
  from alloc have "allocated ?w1" by (rule allocated_startReport)
  then have "allocated w2" using frame by (rule allocated_app_step)
  then show ?thesis
    using decorated_touched [where fn = fn, OF dd call] by (rule allocated_touched) (simp add: n2)
qed

lemma allocated_postRequest: "allocated w \<Longrightarrow> allocated (postRequest r w)"
  by (simp add: allocated_def postRequest_def split: option.splits)

lemma allocated_newContext: "allocated w \<Longrightarrow> allocated (snd (newContext r ag w))"
  by (simp add: allocated_def newContext_def preRequest_def Let_def split: option.splits)

end
